theory Spec2Isabelle
  imports Complex_Main "HOL-Library.Word" "HOL-Library.Log_Nat"
begin

unbundle bit_operations_syntax

section \<open>Machine types\<close>

text \<open>
  BitBuffer is an Arduino library (it includes \<open>Arduino.h\<close> or, before Arduino 1.0,
  \<open>WProgram.h\<close>).  Its functions \<open>getMaxRangeValue\<close> and \<open>getIntegerValue\<close> build an
  \<open>unsigned int\<close> result by storing exactly two bytes into it, so the code is written for
  the AVR boards, where \<open>int\<close> and \<open>unsigned int\<close> have 16 bits, \<open>unsigned long\<close> has 32
  bits, \<open>byte\<close> has 8 bits and objects are little-endian.  The model uses these widths:
  arithmetic on \<open>unsigned_int\<close> and \<open>unsigned_long\<close> wraps around as the C arithmetic does.
\<close>

type_synonym byte = "8 word"
type_synonym unsigned_int = "16 word"
type_synonym unsigned_long = "32 word"

text \<open>Integer division of C truncates towards zero.\<close>

definition cdiv :: "int \<Rightarrow> int \<Rightarrow> int" where
  "cdiv a b = sgn a * sgn b * (\<bar>a\<bar> div \<bar>b\<bar>)"

text \<open>The cast \<open>(int) x\<close> of an unsigned value keeps the low 16 bits, read as two's complement.\<close>

definition to_int :: "unsigned_long \<Rightarrow> int" where
  "to_int x = sint (ucast x :: 16 word)"

text \<open>
  \<open>s_data\<close> points to an array obtained from \<open>malloc\<close>.  The array is a list of bytes; an
  access outside of it is undefined behaviour of the program and is \<open>None\<close> in the model.
\<close>

definition rd :: "byte list \<Rightarrow> int \<Rightarrow> byte option" where
  "rd d i = (if 0 \<le> i \<and> i < int (length d) then Some (d ! nat i) else None)"

definition wr :: "byte list \<Rightarrow> int \<Rightarrow> byte \<Rightarrow> byte list option" where
  "wr d i b = (if 0 \<le> i \<and> i < int (length d) then Some (d[nat i := b]) else None)"

text \<open>The read-modify-write \<open>*arrayValue = (*arrayValue & (0xFF - mask)) | v\<close>.\<close>

definition rmw :: "byte list \<Rightarrow> int \<Rightarrow> byte \<Rightarrow> byte \<Rightarrow> byte list option" where
  "rmw d i msk v =
     (case rd d i of None \<Rightarrow> None
      | Some arrayValue \<Rightarrow> wr d i ((arrayValue AND (0xFF - msk)) OR v))"

section \<open>Constants\<close>

definition RANGE2 :: byte where "RANGE2 = 0x01"
definition RANGE4 :: byte where "RANGE4 = 0x03"
definition RANGE8 :: byte where "RANGE8 = 0x07"
definition RANGE16 :: byte where "RANGE16 = 0x0F"
definition RANGE32 :: byte where "RANGE32 = 0x1F"
definition RANGE64 :: byte where "RANGE64 = 0x3F"
definition RANGE128 :: byte where "RANGE128 = 0x7F"
definition RANGE256 :: byte where "RANGE256 = 0xFF"
definition RANGE512 :: byte where "RANGE512 = 0x02"
definition RANGE1024 :: byte where "RANGE1024 = 0x06"
definition RANGE2048 :: byte where "RANGE2048 = 0x0E"
definition RANGE4096 :: byte where "RANGE4096 = 0x1E"
definition RANGE8192 :: byte where "RANGE8192 = 0x3E"
definition RANGE16384 :: byte where "RANGE16384 = 0x7E"
definition RANGE32768 :: byte where "RANGE32768 = 0xFE"

definition OVERFLOW_MAX :: byte where "OVERFLOW_MAX = 0x01"
definition OVERFLOW_MIN :: byte where "OVERFLOW_MIN = 0x02"
definition OVERFLOW_SKIP :: byte where "OVERFLOW_SKIP = 0x03"

text \<open>The fifteen range selectors the library offers, in the order of \<open>runTest\<close>.\<close>

definition ranges :: "byte list" where
  "ranges = [RANGE2, RANGE4, RANGE8, RANGE16, RANGE32, RANGE64, RANGE128, RANGE256,
             RANGE512, RANGE1024, RANGE2048, RANGE4096, RANGE8192, RANGE16384, RANGE32768]"

section \<open>The buffer\<close>

record BitBuffer =
  s_range :: byte
  s_overflow :: byte
  s_data :: "byte list"
  s_bitIndex :: unsigned_long
  s_popCount :: unsigned_int
  s_size :: unsigned_int
  s_bitSize :: unsigned_int
  s_full :: bool

subsection \<open>Range decoding\<close>

text \<open>
  \<open>getIntegerValue\<close> and \<open>getMaxRangeValue\<close> fill the two bytes of a 16-bit object:
  \<open>p[1]\<close> is the high byte and \<open>p[0]\<close> the low byte.
\<close>

definition getIntegerValue :: "byte \<Rightarrow> byte \<Rightarrow> unsigned_int" where
  "getIntegerValue highByte lowByte = push_bit 8 (ucast highByte) OR ucast lowByte"

definition getMaxRangeValue_of :: "byte \<Rightarrow> unsigned_int" where
  "getMaxRangeValue_of p_range =
     (if bit p_range 0
      then push_bit 8 (ucast (0x00 :: byte)) OR ucast p_range
      else push_bit 8 (ucast (drop_bit 1 p_range)) OR ucast (0xFF :: byte))"

definition getMaxRangeValue :: "BitBuffer \<Rightarrow> unsigned_int" where
  "getMaxRangeValue s = getMaxRangeValue_of (s_range s)"

text \<open>
  \<open>round(log(x) / M_LN2)\<close>, with the floating-point operations read as the real functions
  they approximate.  Arduino's \<open>round\<close> is \<open>(long) (x + 0.5)\<close> for \<open>x \<ge> 0\<close>.
\<close>

definition round_log2 :: "unsigned_int \<Rightarrow> unsigned_int" where
  "round_log2 x = word_of_int (round (ln (real (unat x)) / ln 2))"

text \<open>
  \<open>getBitSize\<close> computes the width on its first call and keeps it in \<open>s_bitSize\<close>: it
  returns the width and the buffer with the width stored.
\<close>

definition getBitSize :: "BitBuffer \<Rightarrow> unsigned_int \<times> BitBuffer" where
  "getBitSize s =
     (if s_bitSize s < 1
      then (let s' = (if getMaxRangeValue s > 1
                      then s\<lparr>s_bitSize := round_log2 (getMaxRangeValue s)\<rparr>
                      else s\<lparr>s_bitSize := 1\<rparr>)
            in (s_bitSize s', s'))
      else (s_bitSize s, s))"

definition getSize :: "BitBuffer \<Rightarrow> unsigned_int" where
  "getSize s = s_size s"

text \<open>
  \<open>((int) (getBitSize() * getSize() / 8)) + 1\<close>: the product is an \<open>unsigned int\<close>
  product.
\<close>

definition getArraySize :: "BitBuffer \<Rightarrow> unsigned_int \<times> BitBuffer" where
  "getArraySize s =
     (case getBitSize s of (bs, s') \<Rightarrow> ((bs * getSize s') div 8 + 1, s'))"

subsection \<open>Construction and the overflow state\<close>

text \<open>
  The constructor.  \<open>malloc\<close> returns a block of \<open>getArraySize()\<close> bytes whose content is
  indeterminate: \<open>heap\<close> gives that content.  The allocation is taken to succeed.
\<close>

definition BitBuffer_new :: "byte \<Rightarrow> unsigned_int \<Rightarrow> (nat \<Rightarrow> byte) \<Rightarrow> BitBuffer" where
  "BitBuffer_new p_range p_size heap =
     (let s = \<lparr>s_range = p_range, s_overflow = OVERFLOW_SKIP, s_data = [],
               s_bitIndex = 0, s_popCount = 0, s_size = p_size, s_bitSize = 0,
               s_full = False\<rparr>
      in case getArraySize s of (n, s') \<Rightarrow> s'\<lparr>s_data := map heap [0..<unat n]\<rparr>)"

definition getOverflowState :: "BitBuffer \<Rightarrow> byte" where
  "getOverflowState s = s_overflow s"

definition setOverflowState :: "BitBuffer \<Rightarrow> byte \<Rightarrow> BitBuffer" where
  "setOverflowState s p_overflow = s\<lparr>s_overflow := p_overflow\<rparr>"

subsection \<open>Number of live values\<close>

text \<open>
  \<open>(s_full ? s_size : s_bitIndex / getBitSize()) - s_popCount\<close> is computed in
  \<open>unsigned long\<close> and returned as \<open>unsigned int\<close>.
\<close>

definition getValueCount :: "BitBuffer \<Rightarrow> unsigned_int \<times> BitBuffer" where
  "getValueCount s =
     (if s_full s
      then (ucast (ucast (s_size s) - ucast (s_popCount s) :: unsigned_long), s)
      else (case getBitSize s of (bs, s') \<Rightarrow>
              (ucast (s_bitIndex s' div ucast bs - ucast (s_popCount s') :: unsigned_long), s')))"

subsection \<open>Writing a value: the four cases of \<open>push\<close>\<close>

text \<open>
  In the following definitions \<open>d\<close> is the array, \<open>index\<close> and \<open>offset\<close> are the local
  variables of \<open>push\<close> and \<open>bs\<close> is the result of \<open>getBitSize()\<close>.  The local \<open>int\<close>
  and \<open>unsigned int\<close> arithmetic on offsets, widths and shift amounts is done on \<open>int\<close>:
  C computes it modulo \<open>2 ^ 16\<close>, and the results lie in \<open>[0, 16)\<close> whenever the offset is
  at most 7 and the width at most 16.  A byte shifted left is cut to 8 bits by the
  assignment to a \<open>byte\<close> variable.
\<close>

text \<open>Maximum value at most 255, the value fits into the current byte (lines 169--196).\<close>

definition push_le256_same_byte ::
  "byte list \<Rightarrow> int \<Rightarrow> int \<Rightarrow> int \<Rightarrow> byte \<Rightarrow> byte list option" where
  "push_le256_same_byte d index offset bs valueLow =
     (let valueLow' = push_bit (nat (8 - offset - bs)) valueLow;
          msk = push_bit (nat (8 - bs)) (0xFF :: byte);
          msk = drop_bit (nat offset) msk
      in rmw d index msk valueLow')"

text \<open>Maximum value at most 255, the value continues in the next byte (lines 197--233).\<close>

definition push_le256_next_byte ::
  "byte list \<Rightarrow> int \<Rightarrow> int \<Rightarrow> int \<Rightarrow> byte \<Rightarrow> byte list option" where
  "push_le256_next_byte d index offset bs valueLow =
     (let overlength = offset + bs - 8;
          v1 = drop_bit (nat overlength) valueLow;
          msk = push_bit (nat (8 - bs)) (0xFF :: byte);
          msk = drop_bit (nat (8 - bs + overlength)) msk
      in Option.bind (rmw d index msk v1) (\<lambda>d1.
           let v2 = push_bit (nat (8 - overlength)) valueLow;
               msk = push_bit (nat (8 - overlength)) (0xFF :: byte)
           in rmw d1 (index + 1) msk v2))"

text \<open>Maximum value above 255, the value fits into two bytes (lines 238--272).\<close>

definition push_gt255_two_bytes ::
  "byte list \<Rightarrow> int \<Rightarrow> int \<Rightarrow> int \<Rightarrow> unsigned_int \<Rightarrow> byte list option" where
  "push_gt255_two_bytes d index offset bs p_value =
     (let overlength = offset + bs - 8;
          valueIntShifted = push_bit (nat (8 - overlength)) p_value;
          v1 = (ucast (drop_bit 8 valueIntShifted) :: byte);
          msk = push_bit (nat (8 - (bs - 8) - (8 - overlength))) (0xFF :: byte);
          msk = drop_bit (nat (8 - (bs - 8) - (8 - overlength))) msk
      in Option.bind (rmw d index msk v1) (\<lambda>d1.
           let v2 = (ucast valueIntShifted :: byte);
               msk = push_bit (nat (8 - overlength)) (0xFF :: byte)
           in rmw d1 (index + 1) msk v2))"

text \<open>Maximum value above 255, the value is spread over three bytes (lines 273--324).\<close>

definition push_gt255_three_bytes ::
  "byte list \<Rightarrow> int \<Rightarrow> int \<Rightarrow> int \<Rightarrow> unsigned_int \<Rightarrow> byte list option" where
  "push_gt255_three_bytes d index offset bs p_value =
     (let overlength = offset + bs - 16;
          v1 = (ucast (drop_bit (nat (bs - (8 - offset))) p_value) :: byte);
          msk = push_bit (nat offset) (0xFF :: byte);
          msk = drop_bit (nat offset) msk
      in Option.bind (rmw d index msk v1) (\<lambda>d1.
           let valueIntShifted = push_bit (nat ((8 - offset) + (16 - bs))) p_value;
               v2 = (ucast (drop_bit 8 valueIntShifted) :: byte)
           in Option.bind (wr d1 (index + 1) v2) (\<lambda>d2.
                let v3 = (ucast valueIntShifted :: byte);
                    msk = push_bit (nat (8 - overlength)) (0xFF :: byte)
                in rmw d2 (index + 2) msk v3)))"

text \<open>
  Lines 152--325 of \<open>push\<close>: the position in the array and the choice of the case.
  \<open>valueLow\<close> is the byte 0 of \<open>p_value\<close>.
\<close>

definition push_write ::
  "byte list \<Rightarrow> unsigned_int \<Rightarrow> unsigned_int \<Rightarrow> unsigned_long \<Rightarrow> unsigned_int \<Rightarrow> byte list option" where
  "push_write d maxRangeValue bitSize bitIndex p_value =
     (let index = sint (ucast (bitIndex div 8) :: 16 word);
          offset = int (unat (bitIndex mod 8));
          bs = int (unat bitSize);
          valueLow = (ucast p_value :: byte)
      in if maxRangeValue \<le> ucast RANGE256
         then (if offset + bs \<le> 8
               then push_le256_same_byte d index offset bs valueLow
               else push_le256_next_byte d index offset bs valueLow)
         else (if offset + bs \<le> 16
               then push_gt255_two_bytes d index offset bs p_value
               else push_gt255_three_bytes d index offset bs p_value))"

subsection \<open>push\<close>

text \<open>
  Lines 134--142: the value that is stored, or \<open>None\<close> where \<open>push\<close> returns \<open>false\<close>.
\<close>

definition push_value :: "BitBuffer \<Rightarrow> unsigned_int \<Rightarrow> unsigned_int option" where
  "push_value s p_value =
     (if p_value > getMaxRangeValue s
      then (if s_overflow s = OVERFLOW_MAX then Some (getMaxRangeValue s)
            else if s_overflow s = OVERFLOW_MIN then Some 0
            else None)
      else Some p_value)"

text \<open>
  Lines 144--150: the slot of the next write.  The sum is an \<open>unsigned long\<close>, the product
  an \<open>unsigned int\<close>.
\<close>

definition push_wrap :: "BitBuffer \<Rightarrow> unsigned_int \<Rightarrow> BitBuffer" where
  "push_wrap s bs =
     (if s_bitIndex s + ucast bs > ucast (getSize s * bs)
      then s\<lparr>s_bitIndex := 0, s_full := True\<rparr>
      else s)"

text \<open>
  The result of \<open>push\<close> is its return value and the buffer after the call; \<open>None\<close> is an
  access outside the array.
\<close>

definition push :: "BitBuffer \<Rightarrow> unsigned_int \<Rightarrow> (bool \<times> BitBuffer) option" where
  "push s p_value =
     (case push_value s p_value of
        None \<Rightarrow> Some (False, s)
      | Some v \<Rightarrow>
          (case getBitSize s of (bs, s1) \<Rightarrow>
             let s2 = push_wrap s1 bs
             in (case push_write (s_data s2) (getMaxRangeValue s2) bs (s_bitIndex s2) v of
                   None \<Rightarrow> None
                 | Some d \<Rightarrow>
                     let s3 = s2\<lparr>s_data := d, s_bitIndex := s_bitIndex s2 + ucast bs\<rparr>;
                         s4 = (if s_popCount s3 > 0
                               then s3\<lparr>s_popCount := s_popCount s3 - 1\<rparr> else s3)
                     in Some (True, s4))))"

subsection \<open>Reading a value\<close>

text \<open>
  \<open>getValueInternal\<close>.  The array index is \<open>(int) p_bitIndex / 8\<close>: the cast applies to
  \<open>p_bitIndex\<close>, and the quotient is that of two \<open>int\<close>.
\<close>

definition getValueInternal_bytes ::
  "byte list \<Rightarrow> unsigned_int \<Rightarrow> unsigned_int \<Rightarrow> unsigned_long \<Rightarrow> unsigned_int option" where
  "getValueInternal_bytes d maxRangeValue bitSize p_bitIndex =
     (let index = cdiv (to_int p_bitIndex) 8;
          offset = int (unat (p_bitIndex mod 8));
          bs = int (unat bitSize)
      in if offset + bs \<le> 8
         then Option.bind (rd d index) (\<lambda>arrayValue.
                let msk = push_bit (nat (8 - bs)) (0xFF :: byte);
                    msk = drop_bit (nat offset) msk;
                    v1 = arrayValue AND msk;
                    v1 = drop_bit (nat (8 - offset - bs)) v1
                in Some (getIntegerValue 0x00 v1))
         else if offset + bs \<le> 16
         then (let overlength = offset + bs - 8
               in Option.bind (rd d index) (\<lambda>arrayValue.
                    let msk = push_bit (nat (8 - bs + overlength)) (0xFF :: byte);
                        msk = drop_bit (nat offset) msk;
                        valueHigh = arrayValue AND msk;
                        msk = push_bit (nat (8 - overlength)) (0xFF :: byte)
                    in Option.bind (rd d (index + 1)) (\<lambda>arrayValue.
                         let valueLow = arrayValue AND msk
                         in if maxRangeValue \<le> ucast RANGE256
                            then (let valueHigh = push_bit (nat overlength) valueHigh;
                                      valueLow = drop_bit (nat (8 - overlength)) valueLow
                                  in Some (getIntegerValue 0x00 (valueHigh OR valueLow)))
                            else (let valueIntShifted = getIntegerValue valueHigh valueLow;
                                      valueIntShifted =
                                        drop_bit (nat (16 - (offset + bs))) valueIntShifted
                                  in Some valueIntShifted))))
         else (let overlength = offset + bs - 16
               in Option.bind (rd d index) (\<lambda>b2.
                  Option.bind (rd d (index + 1)) (\<lambda>b1.
                  Option.bind (rd d (index + 2)) (\<lambda>b0.
                    let valueLongShifted =
                          (push_bit 16 (ucast b2) OR push_bit 8 (ucast b1) OR ucast b0
                             :: unsigned_long);
                        valueLongShifted = push_bit (nat (8 + offset)) valueLongShifted;
                        valueLongShifted =
                          drop_bit (nat (8 + offset + (8 - overlength))) valueLongShifted
                    in Some (ucast valueLongShifted :: unsigned_int))))))"

definition getValueInternal ::
  "BitBuffer \<Rightarrow> unsigned_long \<Rightarrow> (unsigned_int \<times> BitBuffer) option" where
  "getValueInternal s p_bitIndex =
     (case getBitSize s of (bs, s') \<Rightarrow>
        (case getValueInternal_bytes (s_data s') (getMaxRangeValue s') bs p_bitIndex of
           None \<Rightarrow> None
         | Some v \<Rightarrow> Some (v, s')))"

text \<open>
  \<open>getValue\<close>: \<open>bitDelta\<close> is an \<open>unsigned int\<close> product stored in an \<open>unsigned long\<close>.
\<close>

definition getValue :: "BitBuffer \<Rightarrow> unsigned_int \<Rightarrow> (unsigned_int \<times> BitBuffer) option" where
  "getValue s p_index =
     (case getValueCount s of (count, s1) \<Rightarrow>
        if count < p_index \<or> p_index < 1 then Some (0, s1)
        else (case getBitSize s1 of (bs, s2) \<Rightarrow>
                let bitDelta = (ucast ((count - p_index + 1) * bs) :: unsigned_long);
                    bitIndex = (if bitDelta \<le> s_bitIndex s2
                                then s_bitIndex s2 - bitDelta
                                else ucast (getSize s2 * bs) - bitDelta + s_bitIndex s2)
                in getValueInternal s2 bitIndex))"

definition pop :: "BitBuffer \<Rightarrow> (unsigned_int \<times> BitBuffer) option" where
  "pop s =
     (case getValueCount s of (count, s1) \<Rightarrow>
        if count \<le> 0 then Some (0, s1)
        else (case getValue s1 1 of
                None \<Rightarrow> None
              | Some (ret, s2) \<Rightarrow> Some (ret, s2\<lparr>s_popCount := s_popCount s2 + 1\<rparr>)))"

section \<open>Notions used to state the properties\<close>

text \<open>
  Bit \<open>n\<close> of the array, counted from the most significant bit of byte 0: the order in
  which \<open>push\<close> lays out a value.
\<close>

definition bitAt :: "byte list \<Rightarrow> nat \<Rightarrow> bool" where
  "bitAt d n = bit (d ! (n div 8)) (7 - n mod 8)"

text \<open>
  \<open>written d p b v d'\<close>: the array \<open>d'\<close> is \<open>d\<close> with the \<open>b\<close> bits from position \<open>p\<close> on
  replaced by the low \<open>b\<close> bits of \<open>v\<close>, most significant first; no other bit differs.
\<close>

definition written :: "byte list \<Rightarrow> nat \<Rightarrow> nat \<Rightarrow> unsigned_int \<Rightarrow> byte list \<Rightarrow> bool" where
  "written d p b v d' \<longleftrightarrow>
     length d' = length d \<and>
     (\<forall>n. bitAt d' n = (if p \<le> n \<and> n < p + b then bit v (p + b - 1 - n) else bitAt d n))"

text \<open>\<open>field_at d p b r\<close>: \<open>r\<close> is the number whose \<open>b\<close> bits stand at position \<open>p\<close> of \<open>d\<close>.\<close>

definition field_at :: "byte list \<Rightarrow> nat \<Rightarrow> nat \<Rightarrow> unsigned_int \<Rightarrow> bool" where
  "field_at d p b r \<longleftrightarrow> (\<forall>j. bit r j = (j < b \<and> bitAt d (p + b - 1 - j)))"

text \<open>
  Well-formed buffers: the width is cached and is that of the maximum value
  \<open>2 ^ width - 1\<close>, the \<open>unsigned int\<close> product of capacity and width does not overflow,
  the array has the size the constructor computes, the write index is a multiple of the
  width and at most capacity times width, and no more values are popped than are stored.
\<close>

definition wf :: "BitBuffer \<Rightarrow> bool" where
  "wf s \<longleftrightarrow>
     1 \<le> unat (s_bitSize s) \<and> unat (s_bitSize s) \<le> 15 \<and>
     unat (getMaxRangeValue s) + 1 = 2 ^ unat (s_bitSize s) \<and>
     1 \<le> unat (s_size s) \<and>
     unat (s_size s) * unat (s_bitSize s) \<le> 65535 \<and>
     length (s_data s) = unat (s_size s) * unat (s_bitSize s) div 8 + 1 \<and>
     unat (s_bitIndex s) mod unat (s_bitSize s) = 0 \<and>
     unat (s_bitIndex s) \<le> unat (s_size s) * unat (s_bitSize s) \<and>
     unat (s_popCount s) \<le>
       (if s_full s then unat (s_size s) else unat (s_bitIndex s) div unat (s_bitSize s))"

text \<open>The position at which the next \<open>push\<close> writes (lines 146--150).\<close>

definition next_slot :: "BitBuffer \<Rightarrow> nat" where
  "next_slot s =
     (if unat (s_bitIndex s) + unat (s_bitSize s) > unat (s_size s) * unat (s_bitSize s)
      then 0 else unat (s_bitIndex s))"

section \<open>Bit-level lemmas: writing\<close>

lemma byte_compl: "(0xFF :: byte) - m = NOT m"
  by (simp add: not_eq_complement)

lemma bit_ff_int: "bit (255 :: int) n = (n < 8)"
proof -
  have "(255 :: int) = mask 8" by (simp add: mask_eq_exp_minus_1)
  then show ?thesis by (simp only: bit_mask_iff) simp
qed

lemma bit_rmw_byte:
  "bit ((b AND (0xFF - msk)) OR v :: byte) m = ((bit b m \<and> \<not> bit msk m) \<or> bit v m)"
  by (auto simp add: byte_compl bit_simps dest: bit_imp_le_length)

lemma bit_mask1:
  "bit (drop_bit off (push_bit k (0xFF :: byte))) m = (k \<le> m + off \<and> m + off < 8)"
  by (auto simp add: bit_drop_bit_eq bit_push_bit_iff bit_ff_int)

lemma bit_mask2:
  "bit (push_bit k (0xFF :: byte)) m = (k \<le> m \<and> m < 8)"
  by (auto simp add: bit_push_bit_iff bit_ff_int)

lemma bit_high_unset:
  fixes v :: "'a::len word"
  assumes "take_bit b v = v" "b \<le> n"
  shows "\<not> bit v n"
proof -
  have "bit v n = bit (take_bit b v) n" using assms by simp
  also have "\<dots> = (n < b \<and> bit v n)" by (simp add: bit_take_bit_iff)
  finally show ?thesis using assms by simp
qed

lemma bitAt_update:
  "q < length d \<Longrightarrow> bitAt (d[q := x]) n = (if n div 8 = q then bit x (7 - n mod 8) else bitAt d n)"
  by (simp add: bitAt_def nth_list_update)

lemma rmw_Some:
  "i < length d \<Longrightarrow> rmw d (int i) msk v = Some (d[i := (d ! i AND (0xFF - msk)) OR v])"
  by (simp add: rmw_def rd_def wr_def)


lemma bitAt_upd_field:
  assumes q: "q < length d"
    and x: "\<And>m. m < 8 \<Longrightarrow> bit x (7 - m) =
              (if p \<le> 8 * q + m \<and> 8 * q + m < p + b then bit v (p + b - 1 - (8 * q + m))
               else bit (d ! q) (7 - m))"
  shows "bitAt (d[q := x]) n =
           (if n div 8 = q \<and> p \<le> n \<and> n < p + b then bit v (p + b - 1 - n) else bitAt d n)"
proof (cases "n div 8 = q")
  case False
  with q show ?thesis by (simp add: bitAt_update)
next
  case True
  define m where "m = n mod 8"
  have n: "n = 8 * q + m" using True mult_div_mod_eq[of 8 n] by (simp add: m_def)
  have m: "m < 8" by (simp add: m_def)
  have "bitAt (d[q := x]) n = bit x (7 - m)" using q True by (simp add: bitAt_update m_def)
  also note x[OF m]
  finally show ?thesis using True by (simp add: n[symmetric]) (simp add: bitAt_def m_def)
qed

text \<open>byte-level facts\<close>

lemma byte_first_le256_same:
  fixes v :: unsigned_int
  assumes ob: "off + b \<le> 8" and v: "take_bit b v = v" and m: "m < 8"
  shows "bit ((a AND (0xFF - drop_bit off (push_bit (8 - b) (0xFF :: byte))))
              OR push_bit (8 - off - b) (ucast v :: byte)) (7 - m)
         = (if off \<le> m \<and> m < off + b then bit v (off + b - 1 - m) else bit a (7 - m))"
proof (cases "off \<le> m \<and> m < off + b")
  case True
  then have e: "7 - m - (8 - off - b) = off + b - 1 - m" using ob by linarith
  from True ob m show ?thesis
    by (auto simp add: bit_rmw_byte bit_mask1 bit_push_bit_iff bit_ucast_iff e)
next
  case False
  have "\<not> bit v (7 - m - (8 - off - b))" if "8 - off - b \<le> 7 - m"
  proof (rule bit_high_unset[OF v])
    show "b \<le> 7 - m - (8 - off - b)" using False that ob m by linarith
  qed
  with False ob m show ?thesis
    by (auto simp add: bit_rmw_byte bit_mask1 bit_push_bit_iff bit_ucast_iff)
qed

text \<open>first byte when the field continues: mask keeps the low (8 - off) bits, value bits v >> ol\<close>
lemma byte_first_cont:
  fixes v :: unsigned_int and v1 :: byte
  assumes ob: "8 < off + b" and off: "off \<le> 7" and v: "take_bit b v = v" and m: "m < 8"
    and v1: "\<And>k. k < 8 \<Longrightarrow> bit v1 k = bit v (k + (off + b - 8))"
    and msk: "\<And>k. bit msk k = (k + off < 8)"
  shows "bit ((a AND (0xFF - msk)) OR v1) (7 - m)
         = (if off \<le> m \<and> m < off + b then bit v (off + b - 1 - m) else bit a (7 - m))"
proof (cases "off \<le> m")
  case True
  then have e: "7 - m + (off + b - 8) = off + b - 1 - m" using ob m by linarith
  from True ob m show ?thesis
    by (auto simp add: bit_rmw_byte msk v1 e)
next
  case False
  have "\<not> bit v (7 - m + (off + b - 8))"
  proof (rule bit_high_unset[OF v])
    show "b \<le> 7 - m + (off + b - 8)" using False ob m by linarith
  qed
  with False ob m show ?thesis
    by (auto simp add: bit_rmw_byte msk v1)
qed

text \<open>last byte: mask is the top ol bits, value is v << (8 - ol) cut to 8 bits\<close>
lemma byte_last:
  fixes v :: unsigned_int and v2 :: byte
  assumes ol: "1 \<le> ol" "ol \<le> 8" and m: "m < 8"
    and v2: "\<And>k. k < 8 \<Longrightarrow> bit v2 k = (8 - ol \<le> k \<and> bit v (k - (8 - ol)))"
  shows "bit ((a AND (0xFF - push_bit (8 - ol) (0xFF :: byte))) OR v2) (7 - m)
         = (if m < ol then bit v (ol - 1 - m) else bit a (7 - m))"
proof (cases "m < ol")
  case True
  then have e: "7 - m - (8 - ol) = ol - 1 - m" using ol m by linarith
  from True ol m show ?thesis
    by (auto simp add: bit_rmw_byte bit_mask2 v2 e)
next
  case False
  with ol m show ?thesis
    by (auto simp add: bit_rmw_byte bit_mask2 v2)
qed


lemma written_1:
  assumes i: "i < length d" and ob: "off + b \<le> 8"
    and x0: "\<And>m. m < 8 \<Longrightarrow> bit x0 (7 - m) =
               (if off \<le> m \<and> m < off + b then bit v (off + b - 1 - m) else bit (d ! i) (7 - m))"
  shows "written d (8 * i + off) b v (d[i := x0])"
proof -
  have "bitAt (d[i := x0]) n =
          (if n div 8 = i \<and> 8 * i + off \<le> n \<and> n < 8 * i + off + b
           then bit v (8 * i + off + b - 1 - n) else bitAt d n)" for n
  proof (rule bitAt_upd_field[OF i])
    fix m :: nat assume m: "m < 8"
    have e: "8 * i + off + b - 1 - (8 * i + m) = off + b - 1 - m" by linarith
    show "bit x0 (7 - m) =
           (if 8 * i + off \<le> 8 * i + m \<and> 8 * i + m < 8 * i + off + b
            then bit v (8 * i + off + b - 1 - (8 * i + m)) else bit (d ! i) (7 - m))"
      unfolding e using x0[OF m] by simp
  qed
  moreover have "n div 8 = i" if "8 * i + off \<le> n" "n < 8 * i + off + b" for n
    using that ob by linarith
  ultimately show ?thesis unfolding written_def by auto
qed

lemma written_2:
  assumes i: "i + 1 < length d" and ob: "8 < off + b" "off + b \<le> 16" and off: "off \<le> 7"
    and x0: "\<And>m. m < 8 \<Longrightarrow> bit x0 (7 - m) =
               (if off \<le> m \<and> m < off + b then bit v (off + b - 1 - m) else bit (d ! i) (7 - m))"
    and x1: "\<And>m. m < 8 \<Longrightarrow> bit x1 (7 - m) =
               (if m < off + b - 8 then bit v (off + b - 8 - 1 - m) else bit (d ! (i + 1)) (7 - m))"
  shows "written d (8 * i + off) b v (d[i := x0, i + 1 := x1])"
proof -
  let ?p = "8 * i + off"
  let ?d1 = "d[i := x0]"
  have i0: "i < length d" and i1: "i + 1 < length ?d1" using i by simp_all
  have a0: "bitAt ?d1 n =
          (if n div 8 = i \<and> ?p \<le> n \<and> n < ?p + b then bit v (?p + b - 1 - n) else bitAt d n)" for n
  proof (rule bitAt_upd_field[OF i0])
    fix m :: nat assume m: "m < 8"
    have e: "?p + b - 1 - (8 * i + m) = off + b - 1 - m" by linarith
    show "bit x0 (7 - m) =
           (if ?p \<le> 8 * i + m \<and> 8 * i + m < ?p + b
            then bit v (?p + b - 1 - (8 * i + m)) else bit (d ! i) (7 - m))"
      unfolding e using x0[OF m] by simp
  qed
  have a1: "bitAt (?d1[i + 1 := x1]) n =
          (if n div 8 = i + 1 \<and> ?p \<le> n \<and> n < ?p + b then bit v (?p + b - 1 - n) else bitAt ?d1 n)" for n
  proof (rule bitAt_upd_field[OF i1])
    fix m :: nat assume m: "m < 8"
    have e: "?p + b - 1 - (8 * (i + 1) + m) = off + b - 8 - 1 - m" by presburger
    have c: "(?p \<le> 8 * (i + 1) + m \<and> 8 * (i + 1) + m < ?p + b) = (m < off + b - 8)"
      using off by presburger
    show "bit x1 (7 - m) =
           (if ?p \<le> 8 * (i + 1) + m \<and> 8 * (i + 1) + m < ?p + b
            then bit v (?p + b - 1 - (8 * (i + 1) + m)) else bit (?d1 ! (i + 1)) (7 - m))"
      unfolding e c using x1[OF m] by simp
  qed
  have "n div 8 = i \<or> n div 8 = i + 1" if "?p \<le> n" "n < ?p + b" for n
    using that ob by linarith
  with a0 a1 show ?thesis unfolding written_def by auto
qed

lemma written_3:
  assumes i: "i + 2 < length d" and ob: "16 < off + b" "off + b \<le> 24" and off: "off \<le> 7"
    and x0: "\<And>m. m < 8 \<Longrightarrow> bit x0 (7 - m) =
               (if off \<le> m \<and> m < off + b then bit v (off + b - 1 - m) else bit (d ! i) (7 - m))"
    and x1: "\<And>m. m < 8 \<Longrightarrow> bit x1 (7 - m) = bit v (off + b - 8 - 1 - m)"
    and x2: "\<And>m. m < 8 \<Longrightarrow> bit x2 (7 - m) =
               (if m < off + b - 16 then bit v (off + b - 16 - 1 - m) else bit (d ! (i + 2)) (7 - m))"
  shows "written d (8 * i + off) b v (d[i := x0, i + 1 := x1, i + 2 := x2])"
proof -
  let ?p = "8 * i + off"
  let ?d1 = "d[i := x0]"
  let ?d2 = "?d1[i + 1 := x1]"
  have i0: "i < length d" and i1: "i + 1 < length ?d1" and i2: "i + 2 < length ?d2"
    using i by simp_all
  have a0: "bitAt ?d1 n =
          (if n div 8 = i \<and> ?p \<le> n \<and> n < ?p + b then bit v (?p + b - 1 - n) else bitAt d n)" for n
  proof (rule bitAt_upd_field[OF i0])
    fix m :: nat assume m: "m < 8"
    have e: "?p + b - 1 - (8 * i + m) = off + b - 1 - m" by linarith
    show "bit x0 (7 - m) =
           (if ?p \<le> 8 * i + m \<and> 8 * i + m < ?p + b
            then bit v (?p + b - 1 - (8 * i + m)) else bit (d ! i) (7 - m))"
      unfolding e using x0[OF m] by simp
  qed
  have a1: "bitAt ?d2 n =
          (if n div 8 = i + 1 \<and> ?p \<le> n \<and> n < ?p + b then bit v (?p + b - 1 - n) else bitAt ?d1 n)" for n
  proof (rule bitAt_upd_field[OF i1])
    fix m :: nat assume m: "m < 8"
    have e: "?p + b - 1 - (8 * (i + 1) + m) = off + b - 8 - 1 - m" by presburger
    have c: "(?p \<le> 8 * (i + 1) + m \<and> 8 * (i + 1) + m < ?p + b) = True"
      using off ob m by simp
    show "bit x1 (7 - m) =
           (if ?p \<le> 8 * (i + 1) + m \<and> 8 * (i + 1) + m < ?p + b
            then bit v (?p + b - 1 - (8 * (i + 1) + m)) else bit (?d1 ! (i + 1)) (7 - m))"
      unfolding e c using x1[OF m] by simp
  qed
  have a2: "bitAt (?d2[i + 2 := x2]) n =
          (if n div 8 = i + 2 \<and> ?p \<le> n \<and> n < ?p + b then bit v (?p + b - 1 - n) else bitAt ?d2 n)" for n
  proof (rule bitAt_upd_field[OF i2])
    fix m :: nat assume m: "m < 8"
    have e: "?p + b - 1 - (8 * (i + 2) + m) = off + b - 16 - 1 - m" by presburger
    have c: "(?p \<le> 8 * (i + 2) + m \<and> 8 * (i + 2) + m < ?p + b) = (m < off + b - 16)"
      using off by presburger
    show "bit x2 (7 - m) =
           (if ?p \<le> 8 * (i + 2) + m \<and> 8 * (i + 2) + m < ?p + b
            then bit v (?p + b - 1 - (8 * (i + 2) + m)) else bit (?d2 ! (i + 2)) (7 - m))"
      unfolding e c using x2[OF m] by simp
  qed
  have "n div 8 = i \<or> n div 8 = i + 1 \<or> n div 8 = i + 2" if "?p \<le> n" "n < ?p + b" for n
    using that ob by linarith
  with a0 a1 a2 show ?thesis unfolding written_def by auto
qed


lemma wr_Some: "i < length d \<Longrightarrow> wr d (int i) x = Some (d[i := x])"
  by (simp add: wr_def)

lemma rmw_Some1:
  "i + 1 < length d \<Longrightarrow>
   rmw d (int i + 1) msk v = Some (d[i + 1 := (d ! (i + 1) AND (0xFF - msk)) OR v])"
  using rmw_Some[of "i + 1" d msk v] by (simp add: add.commute)

lemma rmw_Some2:
  "i + 2 < length d \<Longrightarrow>
   rmw d (int i + 2) msk v = Some (d[i + 2 := (d ! (i + 2) AND (0xFF - msk)) OR v])"
  using rmw_Some[of "i + 2" d msk v] by (simp add: add.commute)

lemma wr_Some1: "i + 1 < length d \<Longrightarrow> wr d (int i + 1) x = Some (d[i + 1 := x])"
  using wr_Some[of "i + 1" d x] by (simp add: add.commute)

lemma W_same_byte:
  fixes v :: unsigned_int
  assumes ob: "off + b \<le> 8" and v: "take_bit b v = v" and i: "i < length d"
  shows "\<exists>d'. push_le256_same_byte d (int i) (int off) (int b) (ucast v) = Some d' \<and>
           written d (8 * i + off) b v d'"
proof -
  have s1: "nat (8 - int off - int b) = 8 - off - b" by linarith
  have s2: "nat (8 - int b) = 8 - b" by linarith
  let ?x = "(d ! i AND (0xFF - drop_bit off (push_bit (8 - b) (0xFF :: byte))))
              OR push_bit (8 - off - b) (ucast v :: byte)"
  have eq: "push_le256_same_byte d (int i) (int off) (int b) (ucast v) = Some (d[i := ?x])"
    unfolding push_le256_same_byte_def Let_def s1 s2
    using i by (simp add: rmw_Some)
  have "written d (8 * i + off) b v (d[i := ?x])"
    by (rule written_1[OF i ob]) (rule byte_first_le256_same[OF ob v])
  with eq show ?thesis by simp
qed

lemma W_next_byte:
  fixes v :: unsigned_int
  assumes ob: "8 < off + b" and b8: "b \<le> 8" and off: "off \<le> 7"
    and v: "take_bit b v = v" and i: "i + 1 < length d"
  shows "\<exists>d'. push_le256_next_byte d (int i) (int off) (int b) (ucast v) = Some d' \<and>
           written d (8 * i + off) b v d'"
proof -
  define ol where "ol = off + b - 8"
  have ol: "1 \<le> ol" "ol \<le> 8" using ob b8 off by (simp_all add: ol_def)
  have s0: "int off + int b - 8 = int ol" using ob by (simp add: ol_def)
  have s2: "nat (8 - int b) = 8 - b" by linarith
  have s3: "nat (8 - int b + int ol) = off" using ob b8 by (simp add: ol_def) 
  have s4: "nat (8 - int ol) = 8 - ol" by linarith
  let ?m1 = "drop_bit off (push_bit (8 - b) (0xFF :: byte))"
  let ?v1 = "drop_bit ol (ucast v :: byte)"
  let ?x0 = "(d ! i AND (0xFF - ?m1)) OR ?v1"
  let ?v2 = "push_bit (8 - ol) (ucast v :: byte)"
  let ?x1 = "(d ! (i + 1) AND (0xFF - push_bit (8 - ol) (0xFF :: byte))) OR ?v2"
  have i0: "i < length d" using i by simp
  have eq: "push_le256_next_byte d (int i) (int off) (int b) (ucast v)
            = Some (d[i := ?x0, i + 1 := ?x1])"
    unfolding push_le256_next_byte_def Let_def s0 s2 s3 s4
    using i by (simp add: rmw_Some rmw_Some1)
  have hv: "\<not> bit v k" if "b \<le> k" for k using bit_high_unset[OF v that] .
  have "written d (8 * i + off) b v (d[i := ?x0, i + 1 := ?x1])"
  proof (rule written_2[OF i ob _ off])
    show "off + b \<le> 16" using b8 off by simp
  next
    fix m :: nat assume m: "m < 8"
    show "bit ?x0 (7 - m) =
           (if off \<le> m \<and> m < off + b then bit v (off + b - 1 - m) else bit (d ! i) (7 - m))"
    proof (rule byte_first_cont[OF ob off v m])
      fix k :: nat assume "k < 8"
      have "k + ol < 8" if "bit v (k + ol)"
      proof (rule ccontr)
        assume "\<not> k + ol < 8"
        then have "b \<le> k + ol" using b8 by simp
        from hv[OF this] that show False by simp
      qed
      then have "bit ?v1 k = bit v (k + ol)"
        by (auto simp add: bit_drop_bit_eq bit_ucast_iff add.commute)
      then show "bit ?v1 k = bit v (k + (off + b - 8))" by (simp add: ol_def)
    next
      fix k :: nat
      show "bit ?m1 k = (k + off < 8)" using ob by (auto simp add: bit_mask1)
    qed
  next
    fix m :: nat assume m: "m < 8"
    have "bit ?x1 (7 - m) = (if m < ol then bit v (ol - 1 - m) else bit (d ! (i + 1)) (7 - m))"
    proof (rule byte_last[OF ol m])
      fix k :: nat assume "k < 8"
      then show "bit ?v2 k = (8 - ol \<le> k \<and> bit v (k - (8 - ol)))"
        by (auto simp add: bit_push_bit_iff bit_ucast_iff)
    qed
    then show "bit ?x1 (7 - m) =
           (if m < off + b - 8 then bit v (off + b - 8 - 1 - m) else bit (d ! (i + 1)) (7 - m))"
      by (simp add: ol_def)
  qed
  with eq show ?thesis by simp
qed


lemma W_two_bytes:
  fixes v :: unsigned_int
  assumes ob: "off + b \<le> 16" and b9: "9 \<le> b" and off: "off \<le> 7"
    and v: "take_bit b v = v" and i: "i + 1 < length d"
  shows "\<exists>d'. push_gt255_two_bytes d (int i) (int off) (int b) v = Some d' \<and>
           written d (8 * i + off) b v d'"
proof -
  define ol where "ol = off + b - 8"
  have ol: "1 \<le> ol" "ol \<le> 8" using ob b9 by (simp_all add: ol_def)
  have ob8: "8 < off + b" using b9 by simp
  have s0: "int off + int b - 8 = int ol" using b9 by (simp add: ol_def)
  have s3: "nat (8 - (int b - 8) - (8 - int ol)) = off" using b9 by (simp add: ol_def)
  have s4: "nat (8 - int ol) = 8 - ol" by linarith
  let ?vs = "push_bit (8 - ol) v"
  let ?m1 = "drop_bit off (push_bit off (0xFF :: byte))"
  let ?v1 = "ucast (drop_bit 8 ?vs) :: byte"
  let ?x0 = "(d ! i AND (0xFF - ?m1)) OR ?v1"
  let ?v2 = "ucast ?vs :: byte"
  let ?x1 = "(d ! (i + 1) AND (0xFF - push_bit (8 - ol) (0xFF :: byte))) OR ?v2"
  have eq: "push_gt255_two_bytes d (int i) (int off) (int b) v
            = Some (d[i := ?x0, i + 1 := ?x1])"
    unfolding push_gt255_two_bytes_def Let_def s0 s3 s4
    using i by (simp add: rmw_Some rmw_Some1)
  have "written d (8 * i + off) b v (d[i := ?x0, i + 1 := ?x1])"
  proof (rule written_2[OF i ob8 ob off])
    fix m :: nat assume m: "m < 8"
    show "bit ?x0 (7 - m) =
           (if off \<le> m \<and> m < off + b then bit v (off + b - 1 - m) else bit (d ! i) (7 - m))"
    proof (rule byte_first_cont[OF ob8 off v m])
      fix k :: nat assume k: "k < 8"
      have e: "8 + k - (8 - ol) = k + ol" using ol by linarith
      have "bit ?v1 k = bit v (k + ol)"
        using k ol by (auto simp add: bit_drop_bit_eq bit_ucast_iff bit_push_bit_iff e)
      then show "bit ?v1 k = bit v (k + (off + b - 8))" by (simp add: ol_def)
    next
      fix k :: nat
      show "bit ?m1 k = (k + off < 8)" by (auto simp add: bit_mask1)
    qed
  next
    fix m :: nat assume m: "m < 8"
    have "bit ?x1 (7 - m) = (if m < ol then bit v (ol - 1 - m) else bit (d ! (i + 1)) (7 - m))"
    proof (rule byte_last[OF ol m])
      fix k :: nat assume "k < 8"
      then show "bit ?v2 k = (8 - ol \<le> k \<and> bit v (k - (8 - ol)))"
        by (auto simp add: bit_push_bit_iff bit_ucast_iff)
    qed
    then show "bit ?x1 (7 - m) =
           (if m < off + b - 8 then bit v (off + b - 8 - 1 - m) else bit (d ! (i + 1)) (7 - m))"
      by (simp add: ol_def)
  qed
  with eq show ?thesis by simp
qed

lemma W_three_bytes:
  fixes v :: unsigned_int
  assumes ob: "16 < off + b" and b16: "b \<le> 16" and off: "off \<le> 7"
    and v: "take_bit b v = v" and i: "i + 2 < length d"
  shows "\<exists>d'. push_gt255_three_bytes d (int i) (int off) (int b) v = Some d' \<and>
           written d (8 * i + off) b v d'"
proof -
  define ol where "ol = off + b - 16"
  have ol: "1 \<le> ol" "ol \<le> 8" using ob b16 off by (simp_all add: ol_def)
  have ob8: "8 < off + b" using ob by simp
  have s0: "int off + int b - 16 = int ol" using ob by (simp add: ol_def)
  have s1: "nat (int b - (8 - int off)) = off + b - 8" by linarith
  have s3: "nat (8 - int off + (16 - int b)) = 8 - ol" using ob b16 off by (simp add: ol_def)
  have s4: "nat (8 - int ol) = 8 - ol" by linarith
  let ?vs = "push_bit (8 - ol) v"
  let ?m1 = "drop_bit off (push_bit off (0xFF :: byte))"
  let ?v1 = "ucast (drop_bit (off + b - 8) v) :: byte"
  let ?x0 = "(d ! i AND (0xFF - ?m1)) OR ?v1"
  let ?x1 = "ucast (drop_bit 8 ?vs) :: byte"
  let ?v3 = "ucast ?vs :: byte"
  let ?x2 = "(d ! (i + 2) AND (0xFF - push_bit (8 - ol) (0xFF :: byte))) OR ?v3"
  have eq: "push_gt255_three_bytes d (int i) (int off) (int b) v
            = Some (d[i := ?x0, i + 1 := ?x1, i + 2 := ?x2])"
    unfolding push_gt255_three_bytes_def Let_def s0 s1 s3 s4
    using i by (simp add: rmw_Some wr_Some1 rmw_Some2)
  have "written d (8 * i + off) b v (d[i := ?x0, i + 1 := ?x1, i + 2 := ?x2])"
  proof (rule written_3[OF i ob _ off])
    show "off + b \<le> 24" using b16 off by simp
  next
    fix m :: nat assume m: "m < 8"
    show "bit ?x0 (7 - m) =
           (if off \<le> m \<and> m < off + b then bit v (off + b - 1 - m) else bit (d ! i) (7 - m))"
    proof (rule byte_first_cont[OF ob8 off v m])
      fix k :: nat assume k: "k < 8"
      then show "bit ?v1 k = bit v (k + (off + b - 8))"
        by (auto simp add: bit_drop_bit_eq bit_ucast_iff add.commute)
    next
      fix k :: nat
      show "bit ?m1 k = (k + off < 8)" by (auto simp add: bit_mask1)
    qed
  next
    fix m :: nat assume m: "m < 8"
    have e: "7 + ol - m = off + b - 8 - 1 - m" using ol m ob by (simp add: ol_def)
    show "bit ?x1 (7 - m) = bit v (off + b - 8 - 1 - m)"
      using m ol by (auto simp add: bit_drop_bit_eq bit_ucast_iff bit_push_bit_iff e)
  next
    fix m :: nat assume m: "m < 8"
    have "bit ?x2 (7 - m) = (if m < ol then bit v (ol - 1 - m) else bit (d ! (i + 2)) (7 - m))"
    proof (rule byte_last[OF ol m])
      fix k :: nat assume "k < 8"
      then show "bit ?v3 k = (8 - ol \<le> k \<and> bit v (k - (8 - ol)))"
        by (auto simp add: bit_push_bit_iff bit_ucast_iff)
    qed
    then show "bit ?x2 (7 - m) =
           (if m < off + b - 16 then bit v (off + b - 16 - 1 - m) else bit (d ! (i + 2)) (7 - m))"
      by (simp add: ol_def)
  qed
  with eq show ?thesis by simp
qed


lemma sint_ucast_small:
  fixes x :: unsigned_long
  assumes "unat x < 32768"
  shows "sint (ucast x :: 16 word) = int (unat x)"
proof -
  have u: "uint x < 32768" using assms unfolding uint_nat by linarith
  have u0: "0 \<le> uint x" by simp
  have t: "take_bit 16 (uint x) = uint x"
    by (rule take_bit_int_eq_self[OF u0]) (use u in simp)
  have "uint (ucast x :: 16 word) = take_bit 16 (uint x)"
    by (simp add: unsigned_ucast_eq)
  then have "sint (ucast x :: 16 word) = signed_take_bit 15 (uint x)"
    by (simp only: sint_uint t) simp
  also have "\<dots> = uint x"
  proof (rule signed_take_bit_int_eq_self)
    have "- (2 ^ 15) \<le> (0 :: int)" by simp
    from this u0 show "- (2 ^ 15) \<le> uint x" by (rule order_trans)
    show "uint x < 2 ^ 15" using u by simp
  qed
  finally show ?thesis by simp
qed

lemma ucast_RANGE256: "(ucast RANGE256 :: unsigned_int) = 255"
  by (simp add: RANGE256_def)


lemma push_write_written:
  fixes v :: unsigned_int
  assumes b1: "1 \<le> unat bitSize" and b16: "unat bitSize \<le> 16"
    and mb: "(maxv \<le> 255) = (unat bitSize \<le> 8)"
    and v: "take_bit (unat bitSize) v = v"
    and fit: "unat bitIndex + unat bitSize \<le> 8 * length d"
    and small: "unat bitIndex < 262144"
  shows "\<exists>d'. push_write d maxv bitSize bitIndex v = Some d' \<and>
           written d (unat bitIndex) (unat bitSize) v d'"
proof -
  define p where "p = unat bitIndex"
  define b where "b = unat bitSize"
  define i where "i = p div 8"
  define off where "off = p mod 8"
  have p: "p = 8 * i + off" by (simp add: i_def off_def)
  have off: "off \<le> 7" using mod_less_divisor[of 8 p] by (simp add: off_def)
  have ui: "unat (bitIndex div 8) = i" by (simp add: unat_div i_def p_def)
  have "i < 32768" using small unfolding i_def p_def by linarith
  then have idx: "sint (ucast (bitIndex div 8) :: 16 word) = int i"
    using sint_ucast_small[of "bitIndex div 8"] ui by simp
  have uo: "unat (bitIndex mod 8) = off" by (simp add: unat_mod off_def p_def)
  have fit': "8 * i + off + b \<le> 8 * length d" using fit by (simp add: p_def[symmetric] b_def p)
  have e: "push_write d maxv bitSize bitIndex v =
     (if maxv \<le> 255
      then (if int off + int b \<le> 8
            then push_le256_same_byte d (int i) (int off) (int b) (ucast v)
            else push_le256_next_byte d (int i) (int off) (int b) (ucast v))
      else (if int off + int b \<le> 16
            then push_gt255_two_bytes d (int i) (int off) (int b) v
            else push_gt255_three_bytes d (int i) (int off) (int b) v))"
    unfolding push_write_def Let_def idx uo ucast_RANGE256 b_def ..
  have c8: "(int off + int b \<le> 8) = (off + b \<le> 8)" by linarith
  have c16: "(int off + int b \<le> 16) = (off + b \<le> 16)" by linarith
  have v': "take_bit b v = v" using v by (simp add: b_def)
  have mb: "(maxv \<le> 255) = (b \<le> 8)" using mb by (simp add: b_def)
  have b1: "1 \<le> b" and b16: "b \<le> 16" using b1 b16 by (simp_all add: b_def)
  consider (A1) "b \<le> 8" "off + b \<le> 8" | (A2) "b \<le> 8" "8 < off + b"
    | (B1) "9 \<le> b" "off + b \<le> 16" | (B2) "9 \<le> b" "16 < off + b"
    by linarith
  then have "\<exists>d'. push_write d maxv bitSize bitIndex v = Some d' \<and> written d (8 * i + off) b v d'"
  proof cases
    case A1
    have "i < length d" using fit' b1 by linarith
    from W_same_byte[OF A1(2) v' this] A1 mb show ?thesis by (simp add: e c8 c16)
  next
    case A2
    have "i + 1 < length d" using fit' A2 by linarith
    from W_next_byte[OF A2(2) A2(1) off v' this] A2 mb show ?thesis by (simp add: e c8 c16)
  next
    case B1
    have "i + 1 < length d" using fit' B1 by linarith
    from W_two_bytes[OF B1(2) B1(1) off v' this] B1 mb show ?thesis by (simp add: e c8 c16)
  next
    case B2
    have "i + 2 < length d" using fit' B2 by linarith
    from W_three_bytes[OF B2(2) _ off v' this] B2 mb b16 show ?thesis by (simp add: e c8 c16)
  qed
  then show ?thesis unfolding p[symmetric] p_def b_def .
qed

section \<open>Bit-level lemmas: reading\<close>

lemma bit_byte_lt: "bit (a :: byte) g \<Longrightarrow> g < 8"
  by (auto dest: bit_imp_le_length)

lemma bit_getIntegerValue:
  "bit (getIntegerValue h l) j = (if j < 8 then bit l j else j < 16 \<and> bit h (j - 8))"
  by (auto simp add: getIntegerValue_def bit_or_iff bit_push_bit_iff bit_ucast_iff
      dest: bit_imp_le_length)

lemma bit_getIntegerValue_0: "bit (getIntegerValue 0x00 l) j = bit l j"
  using bit_byte_lt[of l j] by (auto simp add: bit_getIntegerValue)

lemma bit_and_mask1:
  "bit (a AND drop_bit off (push_bit k (0xFF :: byte))) g = (bit a g \<and> k \<le> g + off \<and> g + off < 8)"
  by (simp add: bit_and_iff bit_mask1)

lemma bit_and_mask2:
  "bit (a AND push_bit k (0xFF :: byte)) g = (bit a g \<and> k \<le> g)"
  using bit_byte_lt[of a g] by (auto simp add: bit_and_iff bit_mask2)

lemma bit_push_bit_byte:
  "bit (push_bit n (x :: byte)) j = (n \<le> j \<and> j < 8 \<and> bit x (j - n))"
  by (auto simp add: bit_push_bit_iff)

lemma bit_drop_bit': "bit (drop_bit n a) j = bit a (n + j)"
  by (simp add: bit_drop_bit_eq)

lemma R_same_word:
  fixes a :: byte
  assumes ob: "off + b \<le> 8"
  shows "bit (getIntegerValue 0x00
            (drop_bit (8 - off - b) (a AND drop_bit off (push_bit (8 - b) (0xFF :: byte))))) j
         = (j < b \<and> bit a (8 - off - b + j))"
proof -
  have c: "(8 - b \<le> 8 - off - b + j + off \<and> 8 - off - b + j + off < 8) = (j < b)"
    using ob by linarith
  show ?thesis
    unfolding bit_getIntegerValue_0 bit_drop_bit' bit_and_mask1 c by blast
qed

lemma R_next_le256_word:
  fixes a a1 :: byte
  assumes ob: "8 < off + b" and b8: "b \<le> 8" and off: "off \<le> 7" and ol: "ol = off + b - 8"
  shows "bit (getIntegerValue 0x00
            (push_bit ol (a AND drop_bit off (push_bit off (0xFF :: byte)))
             OR drop_bit (8 - ol) (a1 AND push_bit (8 - ol) (0xFF :: byte)))) j
         = (j < b \<and> (if ol \<le> j then bit a (j - ol) else bit a1 (8 - ol + j)))"
proof -
  have e: "bit (getIntegerValue 0x00
            (push_bit ol (a AND drop_bit off (push_bit off (0xFF :: byte)))
             OR drop_bit (8 - ol) (a1 AND push_bit (8 - ol) (0xFF :: byte)))) j
         = ((ol \<le> j \<and> j < 8 \<and> bit a (j - ol) \<and> off \<le> j - ol + off \<and> j - ol + off < 8)
            \<or> (bit a1 (8 - ol + j) \<and> 8 - ol \<le> 8 - ol + j))"
    unfolding bit_getIntegerValue_0 bit_or_iff bit_push_bit_byte bit_drop_bit'
      bit_and_mask1 bit_and_mask2 ..
  show ?thesis
  proof (cases "ol \<le> j")
    case True
    have c: "(j < 8 \<and> off \<le> j - ol + off \<and> j - ol + off < 8) = (j < b)"
      using ob True ol b8 by linarith
    have n: "\<not> bit a1 (8 - ol + j)"
    proof
      assume "bit a1 (8 - ol + j)"
      then have "8 - ol + j < 8" by (rule bit_byte_lt)
      with True ob b8 ol show False by linarith
    qed
    show ?thesis unfolding e using True c n by auto
  next
    case False
    then have "j < b" using ol ob b8 off by linarith
    with False show ?thesis unfolding e by auto
  qed
qed

lemma R_two_gt255_word:
  fixes a a1 :: byte
  assumes ob: "off + b \<le> 16" and b9: "9 \<le> b" and off: "off \<le> 7" and ol: "ol = off + b - 8"
  shows "bit (drop_bit (16 - (off + b))
            (getIntegerValue (a AND drop_bit off (push_bit off (0xFF :: byte)))
               (a1 AND push_bit (8 - ol) (0xFF :: byte)))) j
         = (j < b \<and> (if ol \<le> j then bit a (j - ol) else bit a1 (8 - ol + j)))"
proof (cases "ol \<le> j")
  case True
  have g: "16 - (off + b) + j = 8 + (j - ol)" using True ob b9 ol by linarith
  have c: "(8 + (j - ol) < 16 \<and> off \<le> j - ol + off \<and> j - ol + off < 8) = (j < b)"
    using ob True ol b9 by linarith
  have e: "bit (drop_bit (16 - (off + b))
            (getIntegerValue (a AND drop_bit off (push_bit off (0xFF :: byte)))
               (a1 AND push_bit (8 - ol) (0xFF :: byte)))) j
         = (8 + (j - ol) < 16 \<and> bit a (j - ol) \<and> off \<le> j - ol + off \<and> j - ol + off < 8)"
    unfolding bit_drop_bit' g bit_getIntegerValue bit_and_mask1 by simp
  show ?thesis unfolding e if_P[OF True] using c by blast
next
  case False
  then have jb: "j < b" using ol off by linarith
  have g: "16 - (off + b) + j = 8 - ol + j" using ob b9 ol by linarith
  have g8: "8 - ol + j < 8" using False ol ob b9 by linarith
  have e: "bit (drop_bit (16 - (off + b))
            (getIntegerValue (a AND drop_bit off (push_bit off (0xFF :: byte)))
               (a1 AND push_bit (8 - ol) (0xFF :: byte)))) j
         = (bit a1 (8 - ol + j) \<and> 8 - ol \<le> 8 - ol + j)"
    unfolding bit_drop_bit' g bit_getIntegerValue bit_and_mask2 using g8 by simp
  show ?thesis unfolding e using False jb by auto
qed

lemma bit_three_bytes:
  fixes b2 b1 b0 :: byte
  assumes "g < 24"
  shows "bit (push_bit 16 (ucast b2) OR push_bit 8 (ucast b1) OR ucast b0 :: unsigned_long) g
        = (if g < 8 then bit b0 g else if g < 16 then bit b1 (g - 8) else bit b2 (g - 16))"
  using assms bit_byte_lt[of b0 g] bit_byte_lt[of b1 "g - 8"]
  by (auto simp add: bit_or_iff bit_push_bit_iff bit_ucast_iff)

lemma R_three_word:
  fixes b2 b1 b0 :: byte
  assumes ob: "16 < off + b" and b16: "b \<le> 16" and off: "off \<le> 7"
    and g: "g = 24 - off - b + j"
  shows "bit (ucast (drop_bit (32 - b) (push_bit (8 + off)
            (push_bit 16 (ucast b2) OR push_bit 8 (ucast b1) OR ucast b0 :: unsigned_long)))
              :: unsigned_int) j
         = (j < b \<and> 
              (if g < 8 then bit b0 g else if g < 16 then bit b1 (g - 8) else bit b2 (g - 16)))"
proof -
  define W where "W = (push_bit 16 (ucast b2) OR push_bit 8 (ucast b1) OR ucast b0 :: unsigned_long)"
  have e: "bit (ucast (drop_bit (32 - b) (push_bit (8 + off) W)) :: unsigned_int) j
        = (j < 16 \<and> 8 + off \<le> 32 - b + j \<and> 32 - b + j < 32 \<and> bit W (32 - b + j - (8 + off)))"
    by (simp add: bit_ucast_iff bit_drop_bit' bit_push_bit_iff)
  show ?thesis
  proof (cases "j < b")
    case False
    then have "\<not> 32 - b + j < 32" using b16 by linarith
    with False show ?thesis unfolding W_def[symmetric] e by simp
  next
    case True
    have h: "32 - b + j - (8 + off) = g" "g < 24" "8 + off \<le> 32 - b + j" "32 - b + j < 32" "j < 16"
      using True ob b16 off by (simp_all add: g)
    have "bit W g = (if g < 8 then bit b0 g else if g < 16 then bit b1 (g - 8) else bit b2 (g - 16))"
      unfolding W_def by (rule bit_three_bytes[OF h(2)])
    then show ?thesis
      unfolding W_def[symmetric] e h(1) using True h(3-5) by blast
  qed
qed

lemma rd_Some: "i < length d \<Longrightarrow> rd d (int i) = Some (d ! i)"
  by (simp add: rd_def)

lemma rd_Some1: "i + 1 < length d \<Longrightarrow> rd d (int i + 1) = Some (d ! (i + 1))"
  using rd_Some[of "i + 1" d] by (simp add: add.commute)

lemma rd_Some2: "i + 2 < length d \<Longrightarrow> rd d (int i + 2) = Some (d ! (i + 2))"
  using rd_Some[of "i + 2" d] by (simp add: add.commute)

lemma cdiv_nat: "cdiv (int p) 8 = int (p div 8)"
  by (cases "p = 0") (simp_all add: cdiv_def zdiv_int)

lemma bitAt_byte0: "t < 8 \<Longrightarrow> bitAt d (8 * i + t) = bit (d ! i) (7 - t)"
  by (simp add: bitAt_def)

lemma bitAt_byte1: "8 \<le> t \<Longrightarrow> t < 16 \<Longrightarrow> bitAt d (8 * i + t) = bit (d ! (i + 1)) (15 - t)"
proof -
  assume a: "8 \<le> t" "t < 16"
  then have "(8 * i + t) div 8 = i + 1" "(8 * i + t) mod 8 = t - 8" by presburger+
  moreover have "7 - (t - 8) = 15 - t" using a by linarith
  ultimately show ?thesis by (simp add: bitAt_def)
qed

lemma bitAt_byte2: "16 \<le> t \<Longrightarrow> t < 24 \<Longrightarrow> bitAt d (8 * i + t) = bit (d ! (i + 2)) (23 - t)"
proof -
  assume a: "16 \<le> t" "t < 24"
  then have "(8 * i + t) div 8 = i + 2" "(8 * i + t) mod 8 = t - 16" by presburger+
  moreover have "7 - (t - 16) = 23 - t" using a by linarith
  ultimately show ?thesis by (simp add: bitAt_def)
qed

lemma getValueInternal_bytes_field:
  assumes b1: "1 \<le> unat bitSize" and b16: "unat bitSize \<le> 16"
    and mb: "(maxv \<le> 255) = (unat bitSize \<le> 8)"
    and fit: "unat bitIndex + unat bitSize \<le> 8 * length d"
    and small: "unat bitIndex < 32768"
  shows "\<exists>r. getValueInternal_bytes d maxv bitSize bitIndex = Some r \<and>
           field_at d (unat bitIndex) (unat bitSize) r"
proof -
  define p where "p = unat bitIndex"
  define b where "b = unat bitSize"
  define i where "i = p div 8"
  define off where "off = p mod 8"
  have p: "p = 8 * i + off" by (simp add: i_def off_def)
  have off: "off \<le> 7" using mod_less_divisor[of 8 p] by (simp add: off_def)
  have "to_int bitIndex = int p"
    unfolding to_int_def p_def by (rule sint_ucast_small[OF small])
  then have idx: "cdiv (to_int bitIndex) 8 = int i" by (simp add: cdiv_nat i_def)
  have uo: "unat (bitIndex mod 8) = off" by (simp add: unat_mod off_def p_def)
  have fit': "8 * i + off + b \<le> 8 * length d" using fit by (simp add: p_def[symmetric] b_def p)
  have mb: "(maxv \<le> 255) = (b \<le> 8)" using mb by (simp add: b_def)
  have b1: "1 \<le> b" and b16: "b \<le> 16" using b1 b16 by (simp_all add: b_def)
  have c8: "(int off + int b \<le> 8) = (off + b \<le> 8)" by linarith
  have c16: "(int off + int b \<le> 16) = (off + b \<le> 16)" by linarith
  note defs = getValueInternal_bytes_def Let_def idx uo ucast_RANGE256 b_def[symmetric] c8 c16
  consider (R1) "off + b \<le> 8" | (R2a) "b \<le> 8" "8 < off + b"
    | (R2b) "9 \<le> b" "off + b \<le> 16" | (R3) "16 < off + b"
    by linarith
  then have "\<exists>r. getValueInternal_bytes d maxv bitSize bitIndex = Some r \<and>
           field_at d (8 * i + off) b r"
  proof cases
    case R1
    have i: "i < length d" using fit' b1 by linarith
    have s1: "nat (8 - int b) = 8 - b" "nat (int off) = off" "nat (8 - int off - int b) = 8 - off - b"
      by linarith+
    let ?r = "getIntegerValue 0x00
            (drop_bit (8 - off - b) (d ! i AND drop_bit off (push_bit (8 - b) (0xFF :: byte))))"
    have e: "getValueInternal_bytes d maxv bitSize bitIndex = Some ?r"
      unfolding defs s1 using R1 i by (simp add: rd_Some)
    have "field_at d (8 * i + off) b ?r"
      unfolding field_at_def
    proof
      fix j
      show "bit ?r j = (j < b \<and> bitAt d (8 * i + off + b - 1 - j))"
      proof (cases "j < b")
        case True
        then have t: "8 * i + off + b - 1 - j = 8 * i + (off + b - 1 - j)" "off + b - 1 - j < 8"
          "7 - (off + b - 1 - j) = 8 - off - b + j"
          using R1 by linarith+
        show ?thesis unfolding R_same_word[OF R1] t(1) bitAt_byte0[OF t(2)] t(3) ..
      next
        case False
        then show ?thesis unfolding R_same_word[OF R1] by simp
      qed
    qed
    with e show ?thesis by simp
  next
    case R2a
    define ol where "ol = off + b - 8"
    have i: "i + 1 < length d" using fit' R2a by linarith
    have le16: "off + b \<le> 16" using R2a off by linarith
    have s0: "int off + int b - 8 = int ol" using R2a by (simp add: ol_def)
    have s1: "nat (8 - int b + int ol) = off" "nat (int off) = off" "nat (8 - int ol) = 8 - ol"
      "nat (int ol) = ol"
      using R2a by (simp_all add: ol_def)
    let ?r = "getIntegerValue 0x00
            (push_bit ol (d ! i AND drop_bit off (push_bit off (0xFF :: byte)))
             OR drop_bit (8 - ol) (d ! (i + 1) AND push_bit (8 - ol) (0xFF :: byte)))"
    have e: "getValueInternal_bytes d maxv bitSize bitIndex = Some ?r"
      unfolding defs s0 s1 using R2a i mb le16 by (simp add: rd_Some rd_Some1)
    note R = R_next_le256_word[OF R2a(2) R2a(1) off ol_def]
    have "field_at d (8 * i + off) b ?r"
      unfolding field_at_def
    proof
      fix j
      show "bit ?r j = (j < b \<and> bitAt d (8 * i + off + b - 1 - j))"
      proof (cases "j < b")
        case False
        then show ?thesis unfolding R by simp
      next
        case True
        have t: "8 * i + off + b - 1 - j = 8 * i + (off + b - 1 - j)" using True by linarith
        show ?thesis
        proof (cases "ol \<le> j")
          case T: True
          have u: "off + b - 1 - j < 8" "7 - (off + b - 1 - j) = j - ol"
            using T True R2a by (simp_all add: ol_def)
          show ?thesis unfolding R t bitAt_byte0[OF u(1)] u(2) using T by simp
        next
          case F: False
          have u: "8 \<le> off + b - 1 - j" "off + b - 1 - j < 16" "15 - (off + b - 1 - j) = 8 - ol + j"
            using F True R2a off by (simp_all add: ol_def)
          show ?thesis unfolding R t bitAt_byte1[OF u(1,2)] u(3) using F by simp
        qed
      qed
    qed
    with e show ?thesis by simp
  next
    case R2b
    define ol where "ol = off + b - 8"
    have i: "i + 1 < length d" using fit' R2b by linarith
    have s0: "int off + int b - 8 = int ol" using R2b by (simp add: ol_def)
    have s1: "nat (8 - int b + int ol) = off" "nat (int off) = off" "nat (8 - int ol) = 8 - ol"
      "nat (16 - (int off + int b)) = 16 - (off + b)"
      using R2b by (simp_all add: ol_def)
    let ?r = "drop_bit (16 - (off + b))
            (getIntegerValue (d ! i AND drop_bit off (push_bit off (0xFF :: byte)))
               (d ! (i + 1) AND push_bit (8 - ol) (0xFF :: byte)))"
    have e: "getValueInternal_bytes d maxv bitSize bitIndex = Some ?r"
      unfolding defs s0 s1 using R2b i mb by (simp add: rd_Some rd_Some1)
    note R = R_two_gt255_word[OF R2b(2) R2b(1) off ol_def]
    have "field_at d (8 * i + off) b ?r"
      unfolding field_at_def
    proof
      fix j
      show "bit ?r j = (j < b \<and> bitAt d (8 * i + off + b - 1 - j))"
      proof (cases "j < b")
        case False
        then show ?thesis unfolding R by simp
      next
        case True
        have t: "8 * i + off + b - 1 - j = 8 * i + (off + b - 1 - j)" using True by linarith
        show ?thesis
        proof (cases "ol \<le> j")
          case T: True
          have u: "off + b - 1 - j < 8" "7 - (off + b - 1 - j) = j - ol"
            using T True R2b by (simp_all add: ol_def)
          show ?thesis unfolding R t bitAt_byte0[OF u(1)] u(2) using T by simp
        next
          case F: False
          have u: "8 \<le> off + b - 1 - j" "off + b - 1 - j < 16" "15 - (off + b - 1 - j) = 8 - ol + j"
            using F True R2b off by (simp_all add: ol_def)
          show ?thesis unfolding R t bitAt_byte1[OF u(1,2)] u(3) using F by simp
        qed
      qed
    qed
    with e show ?thesis by simp
  next
    case R3
    define ol where "ol = off + b - 16"
    have i: "i + 2 < length d" using fit' R3 by linarith
    have s0: "int off + int b - 16 = int ol" using R3 by (simp add: ol_def)
    have s1: "nat (8 + int off) = 8 + off" "nat (8 + int off + (8 - int ol)) = 32 - b"
      using R3 b16 off by (simp_all add: ol_def)
    let ?r = "ucast (drop_bit (32 - b) (push_bit (8 + off)
            (push_bit 16 (ucast (d ! i)) OR push_bit 8 (ucast (d ! (i + 1))) OR ucast (d ! (i + 2))
               :: unsigned_long))) :: unsigned_int"
    have e: "getValueInternal_bytes d maxv bitSize bitIndex = Some ?r"
      unfolding defs s0 s1 using R3 i by (simp add: rd_Some rd_Some1 rd_Some2)
    have "field_at d (8 * i + off) b ?r"
      unfolding field_at_def
    proof
      fix j
      define g where "g = 24 - off - b + j"
      note R = R_three_word[OF R3 b16 off g_def, of "d ! i" "d ! (i + 1)" "d ! (i + 2)"]
      show "bit ?r j = (j < b \<and> bitAt d (8 * i + off + b - 1 - j))"
      proof (cases "j < b")
        case False
        then show ?thesis unfolding R by simp
      next
        case True
        define t where "t = off + b - 1 - j"
        have t: "8 * i + off + b - 1 - j = 8 * i + t" using True by (simp add: t_def)
        have gt: "g = 23 - t" "t < 24" using True R3 b16 off by (simp_all add: g_def t_def)
        consider "t < 8" | "8 \<le> t" "t < 16" | "16 \<le> t" by linarith
        then show ?thesis
        proof cases
          case 1
          then have "\<not> g < 8" "\<not> g < 16" "g - 16 = 7 - t" using gt by linarith+
          then show ?thesis unfolding R t bitAt_byte0[OF 1] using True by simp
        next
          case 2
          then have "\<not> g < 8" "g < 16" "g - 8 = 15 - t" using gt by linarith+
          then show ?thesis unfolding R t bitAt_byte1[OF 2] using True by simp
        next
          case 3
          then have "g < 8" "g = 23 - t" using gt by linarith+
          then show ?thesis unfolding R t bitAt_byte2[OF 3 gt(2)] using True by simp
        qed
      qed
    qed
    with e show ?thesis by simp
  qed
  then show ?thesis unfolding p[symmetric] p_def b_def .
qed

section \<open>Lemmas on the buffer state\<close>

lemma unat_ucast_up: "unat (ucast (x :: 16 word) :: 32 word) = unat x"
proof -
  have "unat x < 2 ^ 16" using unsigned_less[of x, where 'a = nat] by simp
  then have "unat x < 2 ^ 32" by simp
  then show ?thesis by (simp add: unsigned_ucast_eq take_bit_nat_eq_self)
qed

lemma word1_le: "(s < (1 :: 16 word)) = (unat s < 1)"
  by (simp add: word_less_nat_alt)

lemma getBitSize_cached: "1 \<le> unat (s_bitSize s) \<Longrightarrow> getBitSize s = (s_bitSize s, s)"
  by (simp add: getBitSize_def word_less_nat_alt)

lemma wf_bs: "wf s \<Longrightarrow> getBitSize s = (s_bitSize s, s)"
  by (simp add: wf_def getBitSize_cached)

lemma in_range_take_bit:
  fixes v m :: unsigned_int
  assumes m: "unat m + 1 = 2 ^ b"
  shows "(v \<le> m) = (take_bit b v = v)"
proof -
  have "(v \<le> m) = (unat v < 2 ^ b)" using m by (simp add: word_le_nat_alt) linarith
  also have "\<dots> = (take_bit b (unat v) = unat v)" by (simp add: take_bit_nat_eq_self_iff)
  also have "\<dots> = (unat (take_bit b v) = unat v)" by (simp add: unsigned_take_bit_eq)
  also have "\<dots> = (take_bit b v = v)" by (simp add: word_unat_eq_iff)
  finally show ?thesis .
qed

lemma max_le_255:
  fixes m :: unsigned_int
  assumes m: "unat m + 1 = 2 ^ b"
  shows "(m \<le> 255) = (b \<le> 8)"
proof -
  have "(m \<le> 255) = (unat m + 1 \<le> 256)" by (simp add: word_le_nat_alt)
  also have "\<dots> = ((2::nat) ^ b \<le> 2 ^ 8)" using m by simp
  also have "\<dots> = (b \<le> 8)" by (rule power_increasing_iff) simp
  finally show ?thesis .
qed

lemma unat_ucast_8_16: "unat (ucast (x :: byte) :: unsigned_int) = unat x"
proof -
  have "unat x < 2 ^ 8" using unsigned_less[of x, where 'a = nat] by simp
  then have "unat x < 2 ^ 16" by simp
  then show ?thesis by (simp add: unsigned_ucast_eq take_bit_nat_eq_self)
qed

lemma unat_getIntegerValue:
  "unat (getIntegerValue h l) = unat h * 256 + unat l"
proof -
  have hl: "unat h < 256" "unat l < 256"
    using unsigned_less[of h, where 'a = nat] unsigned_less[of l, where 'a = nat] by simp_all
  have d: "push_bit 8 (ucast h :: unsigned_int) AND ucast l = 0"
    by (rule bit_word_eqI) (auto simp add: bit_and_iff bit_push_bit_iff bit_ucast_iff dest: bit_imp_le_length)
  have e: "getIntegerValue h l = push_bit 8 (ucast h) + ucast l"
    unfolding getIntegerValue_def using d by (simp add: disjunctive_add_eq_or)
  have p: "unat (push_bit 8 (ucast h :: unsigned_int)) = unat h * 256"
  proof -
    have "unat (ucast h :: unsigned_int) * unat (256 :: unsigned_int) < 2 ^ LENGTH(16)"
      using hl by (simp add: unat_ucast_8_16)
    then have "unat ((ucast h :: unsigned_int) * 256) = unat (ucast h :: unsigned_int) * unat (256 :: unsigned_int)"
      by (rule iffD1[OF unat_mult_lem])
    then show ?thesis by (simp add: push_bit_eq_mult unat_ucast_8_16)
  qed
  have "unat (push_bit 8 (ucast h :: unsigned_int)) + unat (ucast l :: unsigned_int) < 2 ^ LENGTH(16)"
    using hl by (simp add: p unat_ucast_8_16)
  then have "unat (push_bit 8 (ucast h :: unsigned_int) + ucast l)
           = unat (push_bit 8 (ucast h :: unsigned_int)) + unat (ucast l :: unsigned_int)"
    by (rule iffD1[OF unat_add_lem])
  then show ?thesis by (simp add: e p unat_ucast_8_16)
qed

lemma unat_getMaxRangeValue_of:
  "unat (getMaxRangeValue_of r) = (if bit r 0 then unat r else (unat r div 2) * 256 + 255)"
proof -
  have "getMaxRangeValue_of r =
        (if bit r 0 then getIntegerValue 0x00 r else getIntegerValue (drop_bit 1 r) 0xFF)"
    by (simp add: getMaxRangeValue_of_def getIntegerValue_def)
  then show ?thesis
    by (simp add: unat_getIntegerValue drop_bit_eq_div unat_div)
qed

lemma round_log2_nat:
  assumes "0 < n"
  shows "round (ln (real n) / ln 2) = int (floorlog 2 (n * n) div 2)"
proof -
  define k where "k = floorlog 2 (n * n) div 2"
  have nn: "0 < n * n" using assms by simp
  from floorlog_bounds[OF nn, of 2]
  have lo: "2 ^ (floorlog 2 (n * n) - 1) \<le> n * n" and hi: "n * n < 2 ^ floorlog 2 (n * n)"
    by simp_all
  have lo2: "(2::nat) ^ (2 * k - 1) \<le> n * n"
  proof -
    have "2 * k - 1 \<le> floorlog 2 (n * n) - 1" unfolding k_def by simp
    then have "(2::nat) ^ (2 * k - 1) \<le> 2 ^ (floorlog 2 (n * n) - 1)"
      by (intro power_increasing) simp_all
    with lo show ?thesis by linarith
  qed
  have hi2: "n * n < (2::nat) ^ (2 * k + 1)"
  proof -
    have "floorlog 2 (n * n) \<le> 2 * k + 1" unfolding k_def by presburger
    then have "(2::nat) ^ floorlog 2 (n * n) \<le> 2 ^ (2 * k + 1)"
      by (intro power_increasing) simp_all
    with hi show ?thesis by linarith
  qed
  let ?x = "log 2 (real n)"
  have x2: "2 * ?x = log 2 (real (n * n))"
    using assms by (simp add: log_mult)
  have up: "2 * ?x < real (2 * k + 1)"
    unfolding x2 by (rule log2_of_power_less[OF hi2 nn])
  have dn: "real (2 * k - 1) \<le> 2 * ?x"
    unfolding x2 by (rule le_log2_of_power[OF lo2])
  have dn': "real (2 * k) - 1 \<le> 2 * ?x"
    using dn by (cases "k = 0") (simp_all add: of_nat_diff)
  have "round ?x = int k"
    by (rule round_unique) (use up dn' in simp_all)
  then show ?thesis by (simp add: log_def k_def)
qed

lemma floorlog_sq_pow2m1:
  assumes "2 \<le> k"
  shows "floorlog 2 ((2 ^ k - 1) * (2 ^ k - 1)) = 2 * k"
proof -
  obtain j where k: "k = j + 2" using assms by (metis add.commute le_Suc_ex)
  have p: "(2::nat) ^ k = 4 * 2 ^ j" by (simp add: k)
  have sq: "((2::nat) ^ k - 1) * (2 ^ k - 1) < 2 ^ (2 * k)"
  proof -
    have "((2::nat) ^ k - 1) * (2 ^ k - 1) < 2 ^ k * 2 ^ k"
      by (intro mult_strict_mono) simp_all
    then show ?thesis by (simp add: power_add mult_2)
  qed
  have ge: "(2::nat) ^ (2 * k - 1) \<le> (2 ^ k - 1) * (2 ^ k - 1)"
  proof -
    have e: "(2::nat) ^ (2 * k - 1) = 8 * 2 ^ j * 2 ^ j"
      by (simp add: k power_add mult_2)
    define a :: nat where "a = 2 ^ j"
    have a1: "1 \<le> a" by (simp add: a_def)
    then have "3 * a \<le> 4 * a - 1" by linarith
    then have "(3 * a) * (3 * a) \<le> (4 * a - 1) * (4 * a - 1)"
      by (intro mult_mono) simp_all
    then have "8 * a * a \<le> (4 * a - 1) * (4 * a - 1)" by simp
    then have "8 * 2 ^ j * 2 ^ j \<le> (4 * 2 ^ j - 1) * (4 * 2 ^ j - (1::nat))"
      by (simp add: a_def)
    then show ?thesis by (simp only: e p)
  qed
  have "floorlog 2 ((2 ^ k - 1) * (2 ^ k - 1)) \<le> 2 * k"
    using sq by (intro floorlog_leI) simp_all
  moreover have "2 * k \<le> floorlog 2 ((2 ^ k - 1) * (2 ^ k - 1))"
    using ge by (intro floorlog_geI) simp_all
  ultimately show ?thesis by simp
qed


lemma round_log2_pow:
  assumes k: "2 \<le> k" and x: "unat x + 1 = 2 ^ k"
  shows "round_log2 x = of_nat k"
proof -
  have x': "unat x = 2 ^ k - 1" using x by simp
  have pos: "0 < unat x" using k x' by (metis One_nat_def Suc_1 Suc_le_lessD add_diff_cancel_right' less_imp_diff_less one_less_power x zero_less_diff zero_less_one nat_neq_iff not_less_eq)
  have "round (ln (real (unat x)) / ln 2) = int (floorlog 2 (unat x * unat x) div 2)"
    by (rule round_log2_nat[OF pos])
  also have "floorlog 2 (unat x * unat x) = 2 * k"
    unfolding x' by (rule floorlog_sq_pow2m1[OF k])
  finally show ?thesis by (simp add: round_log2_def)
qed

lemma getBitSize_first:
  assumes z: "s_bitSize s = 0" and k: "1 \<le> k" "k \<le> 15"
    and m: "unat (getMaxRangeValue s) + 1 = 2 ^ k"
  shows "getBitSize s = (of_nat k, s\<lparr>s_bitSize := of_nat k\<rparr>)"
proof (cases "k = 1")
  case True
  then have "unat (getMaxRangeValue s) = 1" using m by simp
  then have "\<not> getMaxRangeValue s > 1" by (simp add: word_less_nat_alt)
  then show ?thesis using z True by (simp add: getBitSize_def)
next
  case False
  then have k2: "2 \<le> k" using k by simp
  then have "(2::nat) ^ 2 \<le> 2 ^ k" by (intro power_increasing) simp_all
  then have "1 < unat (getMaxRangeValue s)" using m by simp
  then have "getMaxRangeValue s > 1" by (simp add: word_less_nat_alt)
  then show ?thesis using z round_log2_pow[OF k2 m] by (simp add: getBitSize_def Let_def)
qed

section \<open>Range selectors\<close>

lemma unat_ranges:
  "map (\<lambda>r. unat (getMaxRangeValue_of r)) ranges =
     [1, 3, 7, 15, 31, 63, 127, 255, 511, 1023, 2047, 4095, 8191, 16383, 32767]"
  by (simp add: unat_getMaxRangeValue_of ranges_def RANGE2_def RANGE4_def RANGE8_def RANGE16_def
      RANGE32_def RANGE64_def RANGE128_def RANGE256_def RANGE512_def RANGE1024_def
      RANGE2048_def RANGE4096_def RANGE8192_def RANGE16384_def RANGE32768_def)

text \<open>
  Claim C8.  \<open>getMaxRangeValue\<close> returns the selector itself when the selector is odd, and
  \<open>(selector >> 1) * 256 + 255\<close> when it is even.  This holds for every byte, in particular
  for the canonical selectors: \<open>RANGE256\<close> decodes to 255 and \<open>RANGE32768\<close> to 32767.
\<close>

theorem C8_range_selector_decoding:
  "unat (getMaxRangeValue s) =
     (if odd (unat (s_range s)) then unat (s_range s)
      else unat (drop_bit 1 (s_range s)) * 256 + 255)
   \<and> unat (getMaxRangeValue_of RANGE256) = 255
   \<and> unat (getMaxRangeValue_of RANGE32768) = 32767"
proof -
  have "bit (s_range s) 0 = odd (unat (s_range s))"
    by (simp add: bit_0 word_unat_eq_iff unat_mod even_iff_mod_2_eq_zero)
  then show ?thesis
    by (simp add: getMaxRangeValue_def unat_getMaxRangeValue_of drop_bit_eq_div unat_div
        RANGE256_def RANGE32768_def)
qed

lemmas range_defs = RANGE2_def RANGE4_def RANGE8_def RANGE16_def RANGE32_def RANGE64_def RANGE128_def RANGE256_def RANGE512_def RANGE1024_def RANGE2048_def RANGE4096_def RANGE8192_def RANGE16384_def RANGE32768_def

lemma range_width:
  "unat (getMaxRangeValue_of RANGE2) + 1 = 2 ^ 1"
  "unat (getMaxRangeValue_of RANGE4) + 1 = 2 ^ 2"
  "unat (getMaxRangeValue_of RANGE8) + 1 = 2 ^ 3"
  "unat (getMaxRangeValue_of RANGE16) + 1 = 2 ^ 4"
  "unat (getMaxRangeValue_of RANGE32) + 1 = 2 ^ 5"
  "unat (getMaxRangeValue_of RANGE64) + 1 = 2 ^ 6"
  "unat (getMaxRangeValue_of RANGE128) + 1 = 2 ^ 7"
  "unat (getMaxRangeValue_of RANGE256) + 1 = 2 ^ 8"
  "unat (getMaxRangeValue_of RANGE512) + 1 = 2 ^ 9"
  "unat (getMaxRangeValue_of RANGE1024) + 1 = 2 ^ 10"
  "unat (getMaxRangeValue_of RANGE2048) + 1 = 2 ^ 11"
  "unat (getMaxRangeValue_of RANGE4096) + 1 = 2 ^ 12"
  "unat (getMaxRangeValue_of RANGE8192) + 1 = 2 ^ 13"
  "unat (getMaxRangeValue_of RANGE16384) + 1 = 2 ^ 14"
  "unat (getMaxRangeValue_of RANGE32768) + 1 = 2 ^ 15"
  by (simp_all add: unat_getMaxRangeValue_of range_defs)

text \<open>Every canonical selector has a width \<open>k\<close> between 1 and 15 with maximum \<open>2 ^ k - 1\<close>.\<close>

lemma ranges_width:
  assumes "r \<in> set ranges"
  shows "\<exists>k. 1 \<le> k \<and> k \<le> 15 \<and> unat (getMaxRangeValue_of r) + 1 = 2 ^ k"
proof -
  from assms consider "r = RANGE2" | "r = RANGE4" | "r = RANGE8" | "r = RANGE16" | "r = RANGE32"
    | "r = RANGE64" | "r = RANGE128" | "r = RANGE256" | "r = RANGE512" | "r = RANGE1024"
    | "r = RANGE2048" | "r = RANGE4096" | "r = RANGE8192" | "r = RANGE16384" | "r = RANGE32768"
    unfolding ranges_def by auto
  then show ?thesis
  proof cases
    case 1
    have "1 \<le> (1::nat) \<and> (1::nat) \<le> 15 \<and> unat (getMaxRangeValue_of r) + 1 = 2 ^ 1"
      unfolding 1 using range_width(1) by simp
    then show ?thesis by (rule exI)
  next
    case 2
    have "1 \<le> (2::nat) \<and> (2::nat) \<le> 15 \<and> unat (getMaxRangeValue_of r) + 1 = 2 ^ 2"
      unfolding 2 using range_width(2) by simp
    then show ?thesis by (rule exI)
  next
    case 3
    have "1 \<le> (3::nat) \<and> (3::nat) \<le> 15 \<and> unat (getMaxRangeValue_of r) + 1 = 2 ^ 3"
      unfolding 3 using range_width(3) by simp
    then show ?thesis by (rule exI)
  next
    case 4
    have "1 \<le> (4::nat) \<and> (4::nat) \<le> 15 \<and> unat (getMaxRangeValue_of r) + 1 = 2 ^ 4"
      unfolding 4 using range_width(4) by simp
    then show ?thesis by (rule exI)
  next
    case 5
    have "1 \<le> (5::nat) \<and> (5::nat) \<le> 15 \<and> unat (getMaxRangeValue_of r) + 1 = 2 ^ 5"
      unfolding 5 using range_width(5) by simp
    then show ?thesis by (rule exI)
  next
    case 6
    have "1 \<le> (6::nat) \<and> (6::nat) \<le> 15 \<and> unat (getMaxRangeValue_of r) + 1 = 2 ^ 6"
      unfolding 6 using range_width(6) by simp
    then show ?thesis by (rule exI)
  next
    case 7
    have "1 \<le> (7::nat) \<and> (7::nat) \<le> 15 \<and> unat (getMaxRangeValue_of r) + 1 = 2 ^ 7"
      unfolding 7 using range_width(7) by simp
    then show ?thesis by (rule exI)
  next
    case 8
    have "1 \<le> (8::nat) \<and> (8::nat) \<le> 15 \<and> unat (getMaxRangeValue_of r) + 1 = 2 ^ 8"
      unfolding 8 using range_width(8) by simp
    then show ?thesis by (rule exI)
  next
    case 9
    have "1 \<le> (9::nat) \<and> (9::nat) \<le> 15 \<and> unat (getMaxRangeValue_of r) + 1 = 2 ^ 9"
      unfolding 9 using range_width(9) by simp
    then show ?thesis by (rule exI)
  next
    case 10
    have "1 \<le> (10::nat) \<and> (10::nat) \<le> 15 \<and> unat (getMaxRangeValue_of r) + 1 = 2 ^ 10"
      unfolding 10 using range_width(10) by simp
    then show ?thesis by (rule exI)
  next
    case 11
    have "1 \<le> (11::nat) \<and> (11::nat) \<le> 15 \<and> unat (getMaxRangeValue_of r) + 1 = 2 ^ 11"
      unfolding 11 using range_width(11) by simp
    then show ?thesis by (rule exI)
  next
    case 12
    have "1 \<le> (12::nat) \<and> (12::nat) \<le> 15 \<and> unat (getMaxRangeValue_of r) + 1 = 2 ^ 12"
      unfolding 12 using range_width(12) by simp
    then show ?thesis by (rule exI)
  next
    case 13
    have "1 \<le> (13::nat) \<and> (13::nat) \<le> 15 \<and> unat (getMaxRangeValue_of r) + 1 = 2 ^ 13"
      unfolding 13 using range_width(13) by simp
    then show ?thesis by (rule exI)
  next
    case 14
    have "1 \<le> (14::nat) \<and> (14::nat) \<le> 15 \<and> unat (getMaxRangeValue_of r) + 1 = 2 ^ 14"
      unfolding 14 using range_width(14) by simp
    then show ?thesis by (rule exI)
  next
    case 15
    have "1 \<le> (15::nat) \<and> (15::nat) \<le> 15 \<and> unat (getMaxRangeValue_of r) + 1 = 2 ^ 15"
      unfolding 15 using range_width(15) by simp
    then show ?thesis by (rule exI)
  qed
qed

lemma getBitSize_first_width:
  assumes k: "1 \<le> k" "k \<le> 15" and m: "unat (getMaxRangeValue_of r) + 1 = 2 ^ k"
  shows "unat (fst (getBitSize \<lparr>s_range = r, s_overflow = ov, s_data = d, s_bitIndex = bi,
            s_popCount = pc, s_size = n, s_bitSize = 0, s_full = f\<rparr>)) = k"
proof -
  let ?s = "\<lparr>s_range = r, s_overflow = ov, s_data = d, s_bitIndex = bi,
            s_popCount = pc, s_size = n, s_bitSize = 0, s_full = f\<rparr>"
  have "getBitSize ?s = (of_nat k, ?s\<lparr>s_bitSize := of_nat k\<rparr>)"
    by (rule getBitSize_first[OF _ k]) (use m in \<open>simp_all add: getMaxRangeValue_def\<close>)
  moreover have "unat (of_nat k :: unsigned_int) = k"
    using k by (simp add: unat_of_nat)
  ultimately show ?thesis by simp
qed

lemma BitBuffer_new_width:
  assumes k: "1 \<le> k" "k \<le> 15" and m: "unat (getMaxRangeValue_of r) + 1 = 2 ^ k"
  shows "BitBuffer_new r n heap =
           \<lparr>s_range = r, s_overflow = OVERFLOW_SKIP,
            s_data = map heap [0..<unat ((of_nat k * n) div 8 + 1 :: unsigned_int)],
            s_bitIndex = 0, s_popCount = 0, s_size = n, s_bitSize = of_nat k, s_full = False\<rparr>"
proof -
  let ?s = "\<lparr>s_range = r, s_overflow = OVERFLOW_SKIP, s_data = [], s_bitIndex = 0,
            s_popCount = 0, s_size = n, s_bitSize = 0, s_full = False\<rparr>"
  have "getBitSize ?s = (of_nat k, ?s\<lparr>s_bitSize := of_nat k\<rparr>)"
    by (rule getBitSize_first[OF _ k]) (use m in \<open>simp_all add: getMaxRangeValue_def\<close>)
  then show ?thesis
    by (simp add: BitBuffer_new_def getArraySize_def getSize_def)
qed

lemma getBitSize_new_width:
  assumes k: "1 \<le> k" "k \<le> 15" and m: "unat (getMaxRangeValue_of r) + 1 = 2 ^ k"
  shows "unat (fst (getBitSize (BitBuffer_new r n heap))) = k"
proof -
  have u: "unat (of_nat k :: unsigned_int) = k" using k by (simp add: unat_of_nat)
  show ?thesis
    unfolding BitBuffer_new_width[OF k m] using k u by (simp add: getBitSize_cached)
qed

text \<open>
  Claim C9.  For each of the fifteen canonical range selectors, in the order
  \<open>RANGE2\<close> ... \<open>RANGE32768\<close>, \<open>getBitSize\<close> returns the widths 1 ... 15: on its first
  call, which computes \<open>round(log(maxValue) / M_LN2)\<close> (or 1 for a maximum of 1), and on
  every buffer the constructor returns.  The width \<open>k\<close> is the exact number of bits of the
  values \<open>0 ... maxValue\<close>, since \<open>maxValue + 1 = 2 ^ k\<close>.
\<close>

theorem C9_bit_width:
  "map (\<lambda>r. unat (fst (getBitSize \<lparr>s_range = r, s_overflow = ov, s_data = d, s_bitIndex = bi,
            s_popCount = pc, s_size = n, s_bitSize = 0, s_full = f\<rparr>))) ranges
     = [1, 2, 3, 4, 5, 6, 7, 8, 9, 10, 11, 12, 13, 14, 15]
   \<and> map (\<lambda>r. unat (fst (getBitSize (BitBuffer_new r n heap)))) ranges
     = [1, 2, 3, 4, 5, 6, 7, 8, 9, 10, 11, 12, 13, 14, 15]
   \<and> map (\<lambda>r. unat (getMaxRangeValue_of r) + 1) ranges
     = map (\<lambda>k. 2 ^ k) [1, 2, 3, 4, 5, 6, 7, 8, 9, 10, 11, 12, 13, 14, 15]"
proof (intro conjI)
  show "map (\<lambda>r. unat (fst (getBitSize \<lparr>s_range = r, s_overflow = ov, s_data = d, s_bitIndex = bi,
            s_popCount = pc, s_size = n, s_bitSize = 0, s_full = f\<rparr>))) ranges
     = [1, 2, 3, 4, 5, 6, 7, 8, 9, 10, 11, 12, 13, 14, 15]"
    by (simp add: ranges_def getBitSize_first_width[OF _ _ range_width(1)] getBitSize_first_width[OF _ _ range_width(2)] getBitSize_first_width[OF _ _ range_width(3)] getBitSize_first_width[OF _ _ range_width(4)] getBitSize_first_width[OF _ _ range_width(5)] getBitSize_first_width[OF _ _ range_width(6)] getBitSize_first_width[OF _ _ range_width(7)] getBitSize_first_width[OF _ _ range_width(8)] getBitSize_first_width[OF _ _ range_width(9)] getBitSize_first_width[OF _ _ range_width(10)] getBitSize_first_width[OF _ _ range_width(11)] getBitSize_first_width[OF _ _ range_width(12)] getBitSize_first_width[OF _ _ range_width(13)] getBitSize_first_width[OF _ _ range_width(14)] getBitSize_first_width[OF _ _ range_width(15)])
  show "map (\<lambda>r. unat (fst (getBitSize (BitBuffer_new r n heap)))) ranges
     = [1, 2, 3, 4, 5, 6, 7, 8, 9, 10, 11, 12, 13, 14, 15]"
    by (simp add: ranges_def getBitSize_new_width[OF _ _ range_width(1)] getBitSize_new_width[OF _ _ range_width(2)] getBitSize_new_width[OF _ _ range_width(3)] getBitSize_new_width[OF _ _ range_width(4)] getBitSize_new_width[OF _ _ range_width(5)] getBitSize_new_width[OF _ _ range_width(6)] getBitSize_new_width[OF _ _ range_width(7)] getBitSize_new_width[OF _ _ range_width(8)] getBitSize_new_width[OF _ _ range_width(9)] getBitSize_new_width[OF _ _ range_width(10)] getBitSize_new_width[OF _ _ range_width(11)] getBitSize_new_width[OF _ _ range_width(12)] getBitSize_new_width[OF _ _ range_width(13)] getBitSize_new_width[OF _ _ range_width(14)] getBitSize_new_width[OF _ _ range_width(15)])
  show "map (\<lambda>r. unat (getMaxRangeValue_of r) + 1) ranges
     = map (\<lambda>k. 2 ^ k) [1, 2, 3, 4, 5, 6, 7, 8, 9, 10, 11, 12, 13, 14, 15]"
    by (simp add: ranges_def unat_getMaxRangeValue_of range_defs)
qed

end
